theory Spec2Isabelle
  imports Main
begin

section \<open>The W3ID URL notebook of the GeoArchive package\<close>

text \<open>
  The notebook \<^verbatim>\<open>GeoArchive - Zotero - W3ID_URL.ipynb\<close> reads the report items of a Zotero
  group library page by page, builds for every item an update that sets its \<^verbatim>\<open>url\<close> field
  to a W3ID redirect address, and sends every page of updates back with \<^verbatim>\<open>update_items\<close>.
  This theory embeds its two functions (\<^verbatim>\<open>add_w3id_url\<close>, \<^verbatim>\<open>process_batch\<close>) and its
  top-level script; the pyzotero client is an object with a state of its own, taken here as a
  parameter.
\<close>

subsection \<open>Values and items\<close>

text \<open>
  The entries the code reads hold JSON strings and integers (the Zotero API sends the item key
  as a string, the version and the library id as integers).
\<close>

datatype pyval = PyStr string | PyInt int

text \<open>
  An item is a Python dict. The model keeps the three entries the code subscripts, each of
  them possibly absent, and every other entry (\<^verbatim>\<open>data\<close>, \<^verbatim>\<open>meta\<close>, \<^verbatim>\<open>links\<close>) in
  \<open>other\<close>. The entry \<^verbatim>\<open>library\<close> is itself a dict, an association list here.
\<close>

record item =
  library :: "(string \<times> pyval) list option"
  key :: "pyval option"
  version :: "pyval option"
  other :: "(string \<times> pyval) list"

text \<open>A subscript on a missing key raises \<^verbatim>\<open>KeyError\<close> with that key.\<close>

datatype error = KeyError string

text \<open>The update sent for one item: a dict literal, its entries in the order written.\<close>

type_synonym item_update = "(string \<times> pyval) list"

subsection \<open>Formatting inside the f-string\<close>

text \<open>
  A replacement field \<^verbatim>\<open>{x}\<close> formats a string as itself and an integer in decimal, with a
  minus sign when negative.
\<close>

definition digit_char :: "nat \<Rightarrow> char" where
  "digit_char d = ''0123456789'' ! d"

fun str_nat :: "nat \<Rightarrow> string" where
  "str_nat n = (if n < 10 then [digit_char n] else str_nat (n div 10) @ [digit_char (n mod 10)])"

declare str_nat.simps [simp del]

definition format_value :: "pyval \<Rightarrow> string" where
  "format_value v =
     (case v of
        PyStr s \<Rightarrow> s
      | PyInt i \<Rightarrow> (if i < 0 then CHR ''-'' # str_nat (nat (- i)) else str_nat (nat i)))"

subsection \<open>The two functions of the notebook\<close>

text \<open>
  \<^verbatim>\<open>add_w3id_url(item)\<close>: the subscripts are evaluated in the order of the source
  (\<^verbatim>\<open>item["library"]["id"]\<close>, \<^verbatim>\<open>item["key"]\<close>, and \<^verbatim>\<open>item["version"]\<close> inside the dict
  literal), so the first missing key is the one reported.
\<close>

definition add_w3id_url :: "item \<Rightarrow> error + item_update" where
  "add_w3id_url item =
     (case library item of
        None \<Rightarrow> Inl (KeyError ''library'')
      | Some lib \<Rightarrow>
     (case map_of lib ''id'' of
        None \<Rightarrow> Inl (KeyError ''id'')
      | Some library_id \<Rightarrow>
     (case key item of
        None \<Rightarrow> Inl (KeyError ''key'')
      | Some item_key \<Rightarrow>
     (let w3id_url = ''https://w3id.org/usgs/z/'' @ format_value library_id
                       @ ''/'' @ format_value item_key
      in case version item of
           None \<Rightarrow> Inl (KeyError ''version'')
         | Some v \<Rightarrow> Inr [(''key'', item_key), (''version'', v), (''url'', PyStr w3id_url)]))))"

text \<open>
  \<^verbatim>\<open>process_batch(batch)\<close>: the list comprehension calls \<^verbatim>\<open>add_w3id_url\<close> on the items from
  left to right; the first exception ends it.
\<close>

fun process_batch :: "item list \<Rightarrow> error + item_update list" where
  "process_batch [] = Inr []"
| "process_batch (i # batch) =
     (case add_w3id_url i of
        Inl e \<Rightarrow> Inl e
      | Inr u \<Rightarrow> (case process_batch batch of Inl e \<Rightarrow> Inl e | Inr updates \<Rightarrow> Inr (u # updates)))"

subsection \<open>The pyzotero client\<close>

text \<open>
  The client \<^verbatim>\<open>z_ni43101\<close> is an object of the pyzotero library with a state \<open>'s\<close> (the remote
  library and the client's own paging links). The script uses three of its operations, and each
  may change that state:
  \<^item> \<open>items t n\<close> is \<^verbatim>\<open>z.items(itemType=t, limit=n)\<close>, the first page;
  \<^item> \<open>iter_next\<close> is one \<^verbatim>\<open>next\<close> on the generator \<^verbatim>\<open>z.iterfollow()\<close>: \<open>None\<close> when the
    generator is exhausted, the next page otherwise;
  \<^item> \<open>update_items p\<close> is \<^verbatim>\<open>z.update_items(p)\<close>, which returns the success flag.
  Network failures inside the client are not part of the model.
\<close>

record 's zotero =
  items :: "string \<Rightarrow> nat \<Rightarrow> 's \<Rightarrow> item list \<times> 's"
  iter_next :: "'s \<Rightarrow> (item list \<times> 's) option"
  update_items :: "item_update list \<Rightarrow> 's \<Rightarrow> bool \<times> 's"

subsection \<open>What the script does, as a trace\<close>

datatype line =
    PROCESSED_INITIAL_BATCH int bool
  | PROCESSED_NEXT_BATCH int bool
  | TOTAL_ITEMS_PROCESSED int

datatype event =
    Fetched "item list"
  | Submitted "item_update list" bool
  | Printed line

text \<open>
  The outcome of a run: the total printed at the end or the exception that ended the run, the
  client's final state, and everything that happened in order.
\<close>

type_synonym 's outcome = "(error + int) \<times> 's \<times> event list"

subsection \<open>The script\<close>

text \<open>
  The \<^verbatim>\<open>for\<close> loop over the generator. It runs for as long as the generator yields pages, so
  it is a partial function: \<open>None\<close> is a loop that never ends.
\<close>

partial_function (option) for_loop ::
  "'s zotero \<Rightarrow> 's \<Rightarrow> int \<Rightarrow> event list \<Rightarrow> 's outcome option"
where
  "for_loop z s total_items tr =
     (case iter_next z s of
        None \<Rightarrow> Some (Inr total_items, s, tr)
      | Some (item_batch, s1) \<Rightarrow>
          (case process_batch item_batch of
             Inl e \<Rightarrow> Some (Inl e, s1, tr @ [Fetched item_batch])
           | Inr batch_updates \<Rightarrow>
               (case update_items z batch_updates s1 of
                  (results_update, s2) \<Rightarrow>
                    for_loop z s2 (total_items + int (length item_batch))
                      (tr @ [Fetched item_batch,
                             Submitted batch_updates results_update,
                             Printed (PROCESSED_NEXT_BATCH (int (length batch_updates))
                                        results_update)]))))"

declare for_loop.simps [code]

text \<open>
  Cells 4 and 5 of the notebook: the first page, its updates, the loop, the final line. The
  generator is created before the first \<^verbatim>\<open>update_items\<close> but runs no code until the loop
  asks for a page.
\<close>

definition run :: "'s zotero \<Rightarrow> 's \<Rightarrow> 's outcome option" where
  "run z s0 =
     (case items z ''report'' 50 s0 of
        (report_items, s1) \<Rightarrow>
          (let total_items = int (length report_items) in
           case process_batch report_items of
             Inl e \<Rightarrow> Some (Inl e, s1, [Fetched report_items])
           | Inr initial_batch_updates \<Rightarrow>
               (case update_items z initial_batch_updates s1 of
                  (results_update, s2) \<Rightarrow>
                    (case for_loop z s2 total_items
                            [Fetched report_items,
                             Submitted initial_batch_updates results_update,
                             Printed (PROCESSED_INITIAL_BATCH
                                        (int (length initial_batch_updates)) results_update)] of
                       None \<Rightarrow> None
                     | Some (Inl e, s, tr) \<Rightarrow> Some (Inl e, s, tr)
                     | Some (Inr final_total, s, tr) \<Rightarrow>
                         Some (Inr final_total, s,
                               tr @ [Printed (TOTAL_ITEMS_PROCESSED final_total)])))))"

subsection \<open>Reading a trace\<close>

text \<open>The pages the client returned, in order.\<close>

fun fetched :: "event list \<Rightarrow> item list list" where
  "fetched [] = []"
| "fetched (Fetched p # tr) = p # fetched tr"
| "fetched (Submitted u b # tr) = fetched tr"
| "fetched (Printed l # tr) = fetched tr"

text \<open>The payloads of the \<^verbatim>\<open>update_items\<close> calls, in order.\<close>

fun submitted :: "event list \<Rightarrow> item_update list list" where
  "submitted [] = []"
| "submitted (Fetched p # tr) = submitted tr"
| "submitted (Submitted u b # tr) = u # submitted tr"
| "submitted (Printed l # tr) = submitted tr"

text \<open>The success flags the \<^verbatim>\<open>update_items\<close> calls returned, in order.\<close>

fun success_flags :: "event list \<Rightarrow> bool list" where
  "success_flags [] = []"
| "success_flags (Fetched p # tr) = success_flags tr"
| "success_flags (Submitted u b # tr) = b # success_flags tr"
| "success_flags (Printed l # tr) = success_flags tr"

text \<open>The calls on the client alone, without what was printed.\<close>

fun client_calls :: "event list \<Rightarrow> event list" where
  "client_calls [] = []"
| "client_calls (Printed l # tr) = client_calls tr"
| "client_calls (e # tr) = e # client_calls tr"

text \<open>
  One round of the script, as the three events it leaves in the trace: the page, the call
  with its payload and flag, the printed line. The first round prints another label.
\<close>

definition first_round :: "item list \<times> item_update list \<times> bool \<Rightarrow> event list" where
  "first_round r =
     (case r of (p, u, b) \<Rightarrow>
        [Fetched p, Submitted u b, Printed (PROCESSED_INITIAL_BATCH (int (length u)) b)])"

definition next_round :: "item list \<times> item_update list \<times> bool \<Rightarrow> event list" where
  "next_round r =
     (case r of (p, u, b) \<Rightarrow>
        [Fetched p, Submitted u b, Printed (PROCESSED_NEXT_BATCH (int (length u)) b)])"

text \<open>An item that has the three entries the code subscripts.\<close>

definition has_fields :: "item \<Rightarrow> bool" where
  "has_fields i =
     ((case library i of None \<Rightarrow> False | Some lib \<Rightarrow> map_of lib ''id'' \<noteq> None)
      \<and> key i \<noteq> None \<and> version i \<noteq> None)"

text \<open>A trace with every success flag replaced by \<open>True\<close>.\<close>

fun mask_flag :: "event \<Rightarrow> event" where
  "mask_flag (Fetched p) = Fetched p"
| "mask_flag (Submitted u b) = Submitted u True"
| "mask_flag (Printed (PROCESSED_INITIAL_BATCH n b)) = Printed (PROCESSED_INITIAL_BATCH n True)"
| "mask_flag (Printed (PROCESSED_NEXT_BATCH n b)) = Printed (PROCESSED_NEXT_BATCH n True)"
| "mask_flag (Printed (TOTAL_ITEMS_PROCESSED n)) = Printed (TOTAL_ITEMS_PROCESSED n)"

definition mask_outcome :: "'s outcome \<Rightarrow> 's outcome" where
  "mask_outcome out = (case out of (r, s, tr) \<Rightarrow> (r, s, map mask_flag tr))"

subsection \<open>When the generator is exhausted\<close>

text \<open>
  \<open>exhausted_after z k s\<close>: when the loop starts with the client in state \<open>s\<close>, the generator
  yields \<open>k\<close> pages, each of which \<^verbatim>\<open>process_batch\<close> accepts, and signals exhaustion when
  asked for one more. Between two pages the client goes through the \<^verbatim>\<open>update_items\<close> call
  of the loop body, which may change its state.
\<close>

fun exhausted_after :: "'s zotero \<Rightarrow> nat \<Rightarrow> 's \<Rightarrow> bool" where
  "exhausted_after z 0 s = (iter_next z s = None)"
| "exhausted_after z (Suc k) s =
     (case iter_next z s of
        None \<Rightarrow> False
      | Some (item_batch, s1) \<Rightarrow>
          (case process_batch item_batch of
             Inl e \<Rightarrow> False
           | Inr batch_updates \<Rightarrow>
               exhausted_after z k (snd (update_items z batch_updates s1))))"

text \<open>
  \<open>yields_pages z k s0\<close>: in a run from state \<open>s0\<close> the client returns a first page and \<open>k\<close>
  more, all of items that \<^verbatim>\<open>process_batch\<close> accepts, and then signals exhaustion.
\<close>

definition yields_pages :: "'s zotero \<Rightarrow> nat \<Rightarrow> 's \<Rightarrow> bool" where
  "yields_pages z k s0 =
     (case items z ''report'' 50 s0 of
        (report_items, s1) \<Rightarrow>
          (case process_batch report_items of
             Inl e \<Rightarrow> False
           | Inr initial_batch_updates \<Rightarrow>
               exhausted_after z k (snd (update_items z initial_batch_updates s1))))"

subsection \<open>Clients for tests\<close>

text \<open>
  A client that holds the pages it will return and counts its \<^verbatim>\<open>update_items\<close> calls; the
  call number \<open>c\<close> (from 0) answers with the flag \<open>answer c\<close>.
\<close>

record stub_state =
  first_page :: "item list"
  later_pages :: "item list list"
  calls :: nat

definition stub :: "(nat \<Rightarrow> bool) \<Rightarrow> stub_state zotero" where
  "stub answer =
     \<lparr>items = (\<lambda>t n s. (first_page s, s)),
      iter_next = (\<lambda>s. case later_pages s of
                           [] \<Rightarrow> None
                         | p # ps \<Rightarrow> Some (p, s\<lparr>later_pages := ps\<rparr>)),
      update_items = (\<lambda>u s. (answer (calls s), s\<lparr>calls := Suc (calls s)\<rparr>))\<rparr>"

text \<open>A client whose generator never signals exhaustion: every page is empty.\<close>

definition endless :: "unit zotero" where
  "endless =
     \<lparr>items = (\<lambda>t n s. ([], s)),
      iter_next = (\<lambda>s. Some ([], s)),
      update_items = (\<lambda>u s. (True, s))\<rparr>"

text \<open>An item as the Zotero API sends it, with key \<open>k\<close> and version \<open>v\<close>.\<close>

definition report_item :: "string \<Rightarrow> int \<Rightarrow> item" where
  "report_item k v =
     \<lparr>library = Some [(''type'', PyStr ''group''), (''id'', PyInt 4530692)],
      key = Some (PyStr k),
      version = Some (PyInt v),
      other = [(''itemType'', PyStr ''report'')]\<rparr>"

text \<open>Three pages of sizes 2, 1 and 0, before any call.\<close>

definition three_pages :: stub_state where
  "three_pages =
     \<lparr>first_page = [report_item ''AAAA1111'' 3, report_item ''BBBB2222'' 5],
      later_pages = [[report_item ''CCCC3333'' 8], []],
      calls = 0\<rparr>"

section \<open>Properties\<close>

subsection \<open>Traces and batches\<close>

lemma fetched_append: "fetched (a @ b) = fetched a @ fetched b"
  by (induction a rule: fetched.induct) simp_all

lemma submitted_append: "submitted (a @ b) = submitted a @ submitted b"
  by (induction a rule: submitted.induct) simp_all

lemma success_flags_append: "success_flags (a @ b) = success_flags a @ success_flags b"
  by (induction a rule: success_flags.induct) simp_all

lemma client_calls_append: "client_calls (a @ b) = client_calls a @ client_calls b"
  by (induction a rule: client_calls.induct) simp_all

lemma process_batch_Inr_iff:
  "process_batch p = Inr us \<longleftrightarrow> list_all2 (\<lambda>i u. add_w3id_url i = Inr u) p us"
proof (induction p arbitrary: us)
  case Nil
  show ?case by auto
next
  case (Cons i p)
  show ?case
  proof (cases "add_w3id_url i")
    case (Inl e)
    then show ?thesis by (auto simp: list_all2_Cons1)
  next
    case u: (Inr u)
    show ?thesis
    proof (cases "process_batch p")
      case (Inl e)
      with u Cons.IH show ?thesis by (auto simp: list_all2_Cons1)
    next
      case (Inr vs)
      with u Cons.IH [of vs] Cons.IH show ?thesis
        by (cases us) auto
    qed
  qed
qed

lemma add_w3id_url_Inr_iff: "(\<exists>u. add_w3id_url i = Inr u) \<longleftrightarrow> has_fields i"
  by (auto simp: add_w3id_url_def has_fields_def Let_def split: option.splits)

lemma process_batch_total: "list_all has_fields p \<Longrightarrow> \<exists>us. process_batch p = Inr us"
proof (induction p)
  case Nil
  show ?case by simp
next
  case (Cons i p)
  then obtain u us where "add_w3id_url i = Inr u" "process_batch p = Inr us"
    using add_w3id_url_Inr_iff [of i] by auto
  then show ?case by simp
qed

text \<open>
  Induction over a loop that returned: the property holds for a call if it holds for the
  recursive call that call makes.
\<close>

lemmas for_loop_induct = for_loop.raw_induct [rotated 1, consumes 1, case_names step]

text \<open>
  What a loop that returned has added to the trace: whole rounds, each with a payload that
  \<^verbatim>\<open>process_batch\<close> computed from the page, and at the end either nothing (the total is the
  starting total plus the sizes of the pages) or the page on which \<^verbatim>\<open>process_batch\<close> raised.
\<close>

lemma for_loop_shape:
  assumes "for_loop z s t tr = Some out"
  shows "\<exists>rs. list_all (\<lambda>(p, u, b). process_batch p = Inr u) rs \<and>
           (case out of
              (Inr n, s', tr') \<Rightarrow>
                tr' = tr @ concat (map next_round rs)
                \<and> n = t + sum_list (map (\<lambda>(p, u, b). int (length p)) rs)
            | (Inl e, s', tr') \<Rightarrow>
                (\<exists>p. process_batch p = Inl e
                     \<and> tr' = tr @ concat (map next_round rs) @ [Fetched p]))"
  using assms
proof (induction z s t tr out rule: for_loop_induct)
  case (step loop z s t tr out)
  show ?case
  proof (cases "iter_next z s")
    case None
    with step.hyps have "out = (Inr t, s, tr)" by simp
    then show ?thesis by (auto intro!: exI [of _ "[]"])
  next
    case (Some a)
    obtain p s1 where a: "a = (p, s1)" by (cases a)
    show ?thesis
    proof (cases "process_batch p")
      case (Inl e)
      with Some a step.hyps have "out = (Inl e, s1, tr @ [Fetched p])" by simp
      with Inl show ?thesis by (auto intro!: exI [of _ "[]"])
    next
      case (Inr u)
      obtain b s2 where upd: "update_items z u s1 = (b, s2)" by (cases "update_items z u s1")
      let ?tr = "tr @ [Fetched p, Submitted u b, Printed (PROCESSED_NEXT_BATCH (int (length u)) b)]"
      from Some a Inr upd step.hyps
      have "loop z s2 (t + int (length p)) ?tr = Some out" by simp
      from step.IH [OF this] obtain rs where
        ok: "list_all (\<lambda>(p, u, b). process_batch p = Inr u) rs" and
        sh: "(case out of
              (Inr n, s', tr') \<Rightarrow>
                tr' = ?tr @ concat (map next_round rs)
                \<and> n = (t + int (length p)) + sum_list (map (\<lambda>(p, u, b). int (length p)) rs)
            | (Inl e, s', tr') \<Rightarrow>
                (\<exists>p. process_batch p = Inl e
                     \<and> tr' = ?tr @ concat (map next_round rs) @ [Fetched p]))"
        by blast
      show ?thesis
      proof (intro exI [of _ "(p, u, b) # rs"] conjI)
        show "list_all (\<lambda>(p, u, b). process_batch p = Inr u) ((p, u, b) # rs)"
          using ok Inr by simp
        show "case out of
              (Inr n, s', tr') \<Rightarrow>
                tr' = tr @ concat (map next_round ((p, u, b) # rs))
                \<and> n = t + sum_list (map (\<lambda>(p, u, b). int (length p)) ((p, u, b) # rs))
            | (Inl e, s', tr') \<Rightarrow>
                (\<exists>q. process_batch q = Inl e
                     \<and> tr' = tr @ concat (map next_round ((p, u, b) # rs)) @ [Fetched q])"
          using sh by (auto simp: next_round_def split: prod.splits sum.splits)
      qed
    qed
  qed
qed

lemma fetched_rounds: "fetched (concat (map next_round rs)) = map fst rs"
  by (induction rs) (auto simp: next_round_def)

lemma submitted_rounds: "submitted (concat (map next_round rs)) = map (fst \<circ> snd) rs"
  by (induction rs) (auto simp: next_round_def)

lemma success_flags_rounds: "success_flags (concat (map next_round rs)) = map (snd \<circ> snd) rs"
  by (induction rs) (auto simp: next_round_def)

lemma client_calls_rounds:
  "client_calls (concat (map next_round rs)) =
     concat (map (\<lambda>(p, u, b). [Fetched p, Submitted u b]) rs)"
  by (induction rs) (auto simp: next_round_def)

subsection \<open>Unfolding the loop\<close>

lemma for_loop_exhausted:
  "iter_next z s = None \<Longrightarrow> for_loop z s t tr = Some (Inr t, s, tr)"
  by (subst for_loop.simps) simp

lemma for_loop_raise:
  "iter_next z s = Some (p, s1) \<Longrightarrow> process_batch p = Inl e \<Longrightarrow>
     for_loop z s t tr = Some (Inl e, s1, tr @ [Fetched p])"
  by (subst for_loop.simps) simp

lemma for_loop_page:
  "iter_next z s = Some (p, s1) \<Longrightarrow> process_batch p = Inr u \<Longrightarrow>
   update_items z u s1 = (b, s2) \<Longrightarrow>
     for_loop z s t tr =
       for_loop z s2 (t + int (length p)) (tr @ next_round (p, u, b))"
  by (subst for_loop.simps) (simp add: next_round_def)

text \<open>
  A generator that is exhausted after \<open>k\<close> pages makes the loop return, after \<open>k\<close> rounds.
\<close>

lemma for_loop_exhausted_after:
  "exhausted_after z k s \<Longrightarrow>
     \<exists>n s' rs. for_loop z s t tr = Some (Inr n, s', tr @ concat (map next_round rs))
       \<and> length rs = k
       \<and> list_all (\<lambda>(p, u, b). process_batch p = Inr u) rs
       \<and> n = t + sum_list (map (\<lambda>(p, u, b). int (length p)) rs)"
proof (induction k arbitrary: s t tr)
  case 0
  then have "for_loop z s t tr = Some (Inr t, s, tr @ concat (map next_round []))"
    by (simp add: for_loop_exhausted)
  then show ?case by (intro exI [of _ "[]"] exI [of _ t] exI [of _ s]) simp
next
  case (Suc k)
  from Suc.prems obtain p s1 where nx: "iter_next z s = Some (p, s1)"
    by (auto split: option.splits)
  with Suc.prems obtain u where pb: "process_batch p = Inr u"
    by (auto split: sum.splits)
  obtain b s2 where upd: "update_items z u s1 = (b, s2)"
    by (cases "update_items z u s1")
  from Suc.prems nx pb upd have "exhausted_after z k s2" by simp
  from Suc.IH [OF this, of "t + int (length p)" "tr @ next_round (p, u, b)"]
  obtain n s' rs where
    run: "for_loop z s2 (t + int (length p)) (tr @ next_round (p, u, b)) =
            Some (Inr n, s', (tr @ next_round (p, u, b)) @ concat (map next_round rs))" and
    len: "length rs = k" and
    ok: "list_all (\<lambda>(p, u, b). process_batch p = Inr u) rs" and
    n: "n = (t + int (length p)) + sum_list (map (\<lambda>(p, u, b). int (length p)) rs)"
    by blast
  have "for_loop z s t tr = Some (Inr n, s', tr @ concat (map next_round ((p, u, b) # rs)))"
    using run for_loop_page [OF nx pb upd] by simp
  moreover have "length ((p, u, b) # rs) = Suc k" using len by simp
  moreover have "list_all (\<lambda>(p, u, b). process_batch p = Inr u) ((p, u, b) # rs)"
    using ok pb by simp
  moreover have "n = t + sum_list (map (\<lambda>(p, u, b). int (length p)) ((p, u, b) # rs))"
    using n by simp
  ultimately show ?case by blast
qed

text \<open>A loop that returned a total has seen the generator exhausted.\<close>

lemma for_loop_Inr_exhausted:
  assumes "for_loop z s t tr = Some out"
  shows "isl (fst out) \<or> (\<exists>k. exhausted_after z k s)"
  using assms
proof (induction z s t tr out rule: for_loop_induct)
  case (step loop z s t tr out)
  show ?case
  proof (cases "iter_next z s")
    case None
    then have "exhausted_after z 0 s" by simp
    then show ?thesis by blast
  next
    case (Some a)
    obtain p s1 where a: "a = (p, s1)" by (cases a)
    show ?thesis
    proof (cases "process_batch p")
      case (Inl e)
      with Some a step.hyps show ?thesis by auto
    next
      case (Inr u)
      obtain b s2 where upd: "update_items z u s1 = (b, s2)" by (cases "update_items z u s1")
      from Some a Inr upd step.hyps
      have "loop z s2 (t + int (length p))
              (tr @ [Fetched p, Submitted u b,
                     Printed (PROCESSED_NEXT_BATCH (int (length u)) b)]) = Some out"
        by simp
      from step.IH [OF this] show ?thesis
      proof
        assume "isl (fst out)"
        then show ?thesis by simp
      next
        assume "\<exists>k. exhausted_after z k s2"
        then obtain k where "exhausted_after z k s2" by blast
        with Some a Inr upd have "exhausted_after z (Suc k) s" by simp
        then show ?thesis by blast
      qed
    qed
  qed
qed

lemma fetched_first_round: "fetched (first_round r) = [fst r]"
  by (cases r) (simp add: first_round_def)

lemma submitted_first_round: "submitted (first_round r) = [fst (snd r)]"
  by (cases r) (simp add: first_round_def)

lemma success_flags_first_round:
  "success_flags (first_round r) = [snd (snd r)]"
  by (cases r) (simp add: first_round_def)

lemma client_calls_first_round:
  "client_calls (first_round r) = (case r of (p, u, b) \<Rightarrow> [Fetched p, Submitted u b])"
  by (cases r) (simp add: first_round_def)

subsection \<open>The whole run\<close>

text \<open>
  A client that yields a first page and \<open>k\<close> more makes the run return with a total, after
  \<open>k + 1\<close> rounds and the final line.
\<close>

lemma run_yields_pages:
  assumes "yields_pages z k s0"
  shows "\<exists>n s' r0 rs.
           run z s0 = Some (Inr n, s', first_round r0 @ concat (map next_round rs)
                                         @ [Printed (TOTAL_ITEMS_PROCESSED n)])
           \<and> length rs = k
           \<and> list_all (\<lambda>(p, u, b). process_batch p = Inr u) (r0 # rs)
           \<and> n = sum_list (map (\<lambda>(p, u, b). int (length p)) (r0 # rs))"
proof -
  obtain p0 s1 where it: "items z ''report'' 50 s0 = (p0, s1)"
    by (cases "items z ''report'' 50 s0")
  with assms obtain u0 where pb: "process_batch p0 = Inr u0"
    by (auto simp: yields_pages_def split: sum.splits)
  obtain b0 s2 where upd: "update_items z u0 s1 = (b0, s2)"
    by (cases "update_items z u0 s1")
  from assms it pb upd have "exhausted_after z k s2"
    by (simp add: yields_pages_def)
  from for_loop_exhausted_after [OF this, of "int (length p0)" "first_round (p0, u0, b0)"]
  obtain n s' rs where
    loop: "for_loop z s2 (int (length p0)) (first_round (p0, u0, b0)) =
             Some (Inr n, s', first_round (p0, u0, b0) @ concat (map next_round rs))" and
    len: "length rs = k" and
    ok: "list_all (\<lambda>(p, u, b). process_batch p = Inr u) rs" and
    n: "n = int (length p0) + sum_list (map (\<lambda>(p, u, b). int (length p)) rs)"
    by blast
  have "run z s0 = Some (Inr n, s', first_round (p0, u0, b0) @ concat (map next_round rs)
                                      @ [Printed (TOTAL_ITEMS_PROCESSED n)])"
    using it pb upd loop by (simp add: run_def first_round_def)
  moreover have "list_all (\<lambda>(p, u, b). process_batch p = Inr u) ((p0, u0, b0) # rs)"
    using ok pb by simp
  moreover have "n = sum_list (map (\<lambda>(p, u, b). int (length p)) ((p0, u0, b0) # rs))"
    using n by simp
  ultimately show ?thesis using len by blast
qed

text \<open>
  Any run that returned, with a total or with an exception: every payload sent was computed by
  \<^verbatim>\<open>process_batch\<close> from the page fetched in the same round; a run that raised has fetched one
  more page than it has sent payloads.
\<close>

lemma run_shape:
  assumes "run z s0 = Some (r, s', tr)"
  shows "\<exists>rs. list_all (\<lambda>(p, u, b). process_batch p = Inr u) rs
           \<and> submitted tr = map (fst \<circ> snd) rs
           \<and> success_flags tr = map (snd \<circ> snd) rs
           \<and> (fetched tr = map fst rs \<or> (\<exists>p. fetched tr = map fst rs @ [p]))"
proof -
  obtain p0 s1 where it: "items z ''report'' 50 s0 = (p0, s1)"
    by (cases "items z ''report'' 50 s0")
  show ?thesis
  proof (cases "process_batch p0")
    case (Inl e)
    with assms it have "tr = [Fetched p0]" by (simp add: run_def)
    then show ?thesis by (auto intro!: exI [of _ "[]"])
  next
    case (Inr u0)
    obtain b0 s2 where upd: "update_items z u0 s1 = (b0, s2)"
      by (cases "update_items z u0 s1")
    let ?r0 = "(p0, u0, b0)"
    from assms it Inr upd obtain out where
      loop: "for_loop z s2 (int (length p0)) (first_round ?r0) = Some out" and
      out: "(case out of (Inl e, s, tr1) \<Rightarrow> Some (Inl e, s, tr1)
               | (Inr n, s, tr1) \<Rightarrow> Some (Inr n, s, tr1 @ [Printed (TOTAL_ITEMS_PROCESSED n)]))
            = Some (r, s', tr)"
      by (auto simp: run_def first_round_def split: option.splits)
    from for_loop_shape [OF loop] obtain rs where
      ok: "list_all (\<lambda>(p, u, b). process_batch p = Inr u) rs" and
      sh: "(case out of
              (Inr n, s', tr') \<Rightarrow>
                tr' = first_round ?r0 @ concat (map next_round rs)
                \<and> n = int (length p0) + sum_list (map (\<lambda>(p, u, b). int (length p)) rs)
            | (Inl e, s', tr') \<Rightarrow>
                (\<exists>p. process_batch p = Inl e
                     \<and> tr' = first_round ?r0 @ concat (map next_round rs) @ [Fetched p]))"
      by blast
    obtain r1 s1' tr1 where o: "out = (r1, s1', tr1)" by (cases out)
    have a: "list_all (\<lambda>(p, u, b). process_batch p = Inr u) (?r0 # rs)"
      using ok Inr by simp
    have b: "submitted tr = map (fst \<circ> snd) (?r0 # rs)"
      using out sh o
      by (cases r1)
         (auto simp: submitted_first_round submitted_append submitted_rounds)
    have d: "success_flags tr = map (snd \<circ> snd) (?r0 # rs)"
      using out sh o
      by (cases r1)
         (auto simp: success_flags_first_round success_flags_append success_flags_rounds)
    have c: "fetched tr = map fst (?r0 # rs) \<or> (\<exists>p. fetched tr = map fst (?r0 # rs) @ [p])"
      using out sh o
      by (cases r1)
         (auto simp: fetched_first_round fetched_append fetched_rounds)
    show ?thesis by (rule exI [of _ "(p0, u0, b0) # rs"]) (intro conjI a b d c)
  qed
qed

subsection \<open>The update of one item\<close>

lemma add_w3id_url_InrD:
  assumes "add_w3id_url i = Inr req"
  shows "\<exists>lib L k v. library i = Some lib \<and> map_of lib ''id'' = Some L
           \<and> key i = Some k \<and> version i = Some v
           \<and> req = [(''key'', k), (''version'', v),
                     (''url'', PyStr (''https://w3id.org/usgs/z/'' @ format_value L
                                       @ ''/'' @ format_value k))]"
  using assms by (auto simp: add_w3id_url_def Let_def split: option.splits)

lemma process_batch_member:
  assumes "process_batch p = Inr u" and "req \<in> set u"
  shows "\<exists>i \<in> set p. add_w3id_url i = Inr req"
proof -
  from assms(1) have "list_all2 (\<lambda>i u. add_w3id_url i = Inr u) p u"
    by (simp add: process_batch_Inr_iff)
  then have len: "length p = length u" and
    nth: "\<And>j. j < length u \<Longrightarrow> add_w3id_url (p ! j) = Inr (u ! j)"
    by (simp_all add: list_all2_conv_all_nth)
  from assms(2) obtain j where j: "j < length u" "u ! j = req"
    by (auto simp: in_set_conv_nth)
  then have "p ! j \<in> set p" using len by simp
  moreover have "add_w3id_url (p ! j) = Inr req" using nth [OF j(1)] j(2) by simp
  ultimately show ?thesis by blast
qed

subsection \<open>Rounds and projections\<close>

lemma rounds_zip:
  "zip (map fst rs) (zip (map (fst \<circ> snd) rs) (map (snd \<circ> snd) rs)) = rs"
  by (induction rs) auto

lemma sum_rounds:
  "sum_list (map (\<lambda>(p, u, b). int (length p)) rs) = (\<Sum>p\<leftarrow>map fst rs. int (length p))"
  by (induction rs) auto

lemma rounds_pointwise:
  assumes "list_all (\<lambda>(p, u, b). process_batch p = Inr u) rs"
  shows "list_all2 (\<lambda>p u. list_all2 (\<lambda>i r. add_w3id_url i = Inr r) p u)
           (map fst rs) (map (fst \<circ> snd) rs)"
  using assms
  by (induction rs) (auto simp: process_batch_Inr_iff)

text \<open>The projections of the trace of a run that returned a total.\<close>

lemma trace_projections:
  assumes "tr = first_round r0 @ concat (map next_round rs) @ [Printed l]"
  shows "fetched tr = map fst (r0 # rs)"
    and "submitted tr = map (fst \<circ> snd) (r0 # rs)"
    and "success_flags tr = map (snd \<circ> snd) (r0 # rs)"
    and "client_calls tr = concat (map (\<lambda>(p, u, b). [Fetched p, Submitted u b]) (r0 # rs))"
  using assms
  by (simp_all add: fetched_append fetched_first_round fetched_rounds
        submitted_append submitted_first_round submitted_rounds
        success_flags_append success_flags_first_round success_flags_rounds
        client_calls_append client_calls_first_round client_calls_rounds)

subsection \<open>The test client\<close>

lemma has_fields_report_item: "has_fields (report_item k v)"
  by (simp add: has_fields_def report_item_def)

lemma stub_iter_next_Nil:
  "iter_next (stub a) \<lparr>first_page = f, later_pages = [], calls = c\<rparr> = None"
  by (simp add: stub_def)

lemma stub_iter_next_Cons:
  "iter_next (stub a) \<lparr>first_page = f, later_pages = p # ps, calls = c\<rparr> =
     Some (p, \<lparr>first_page = f, later_pages = ps, calls = c\<rparr>)"
  by (simp add: stub_def)

lemma stub_update_items:
  "update_items (stub a) u \<lparr>first_page = f, later_pages = ps, calls = c\<rparr> =
     (a c, \<lparr>first_page = f, later_pages = ps, calls = Suc c\<rparr>)"
  by (simp add: stub_def)

lemma stub_items:
  "items (stub a) t n \<lparr>first_page = f, later_pages = ps, calls = c\<rparr> =
     (f, \<lparr>first_page = f, later_pages = ps, calls = c\<rparr>)"
  by (simp add: stub_def)

lemma exhausted_after_stub:
  assumes "list_all (list_all has_fields) ps"
  shows "exhausted_after (stub a) (length ps) \<lparr>first_page = f, later_pages = ps, calls = c\<rparr>"
  using assms
proof (induction ps arbitrary: c)
  case Nil
  show ?case by (simp add: stub_iter_next_Nil)
next
  case (Cons p ps)
  from Cons.prems obtain u where u: "process_batch p = Inr u"
    using process_batch_total [of p] by auto
  from Cons.prems have "list_all (list_all has_fields) ps" by simp
  from Cons.IH [OF this, of "Suc c"] u show ?case
    by (simp add: stub_iter_next_Cons stub_update_items)
qed

lemma yields_pages_stub:
  assumes "list_all has_fields f" and "list_all (list_all has_fields) ps"
  shows "yields_pages (stub a) (length ps) \<lparr>first_page = f, later_pages = ps, calls = c\<rparr>"
proof -
  from assms(1) obtain u where u: "process_batch f = Inr u"
    using process_batch_total [of f] by auto
  with exhausted_after_stub [OF assms(2), of a f "Suc c"] show ?thesis
    by (simp add: yields_pages_def stub_items stub_update_items)
qed

lemma yields_pages_three_pages: "yields_pages (stub a) 2 three_pages"
  using yields_pages_stub
          [of "[report_item ''AAAA1111'' 3, report_item ''BBBB2222'' 5]"
              "[[report_item ''CCCC3333'' 8], []]" a 0]
  by (simp add: three_pages_def has_fields_report_item eval_nat_numeral)

text \<open>The loop on the test client: it takes the pages in order and the flags by call number.\<close>

lemma for_loop_stub:
  assumes "list_all (list_all has_fields) ps"
  shows "\<exists>rs. for_loop (stub a) \<lparr>first_page = f, later_pages = ps, calls = c\<rparr> t tr =
                 Some (Inr (t + (\<Sum>p\<leftarrow>ps. int (length p))),
                       \<lparr>first_page = f, later_pages = [], calls = c + length ps\<rparr>,
                       tr @ concat (map next_round rs))
              \<and> map fst rs = ps
              \<and> map (snd \<circ> snd) rs = map a [c..<c + length ps]
              \<and> list_all (\<lambda>(p, u, b). process_batch p = Inr u) rs"
  using assms
proof (induction ps arbitrary: c t tr)
  case Nil
  have "for_loop (stub a) \<lparr>first_page = f, later_pages = [], calls = c\<rparr> t tr =
          Some (Inr t, \<lparr>first_page = f, later_pages = [], calls = c\<rparr>, tr)"
    by (rule for_loop_exhausted) (rule stub_iter_next_Nil)
  then show ?case by (intro exI [of _ "[]"]) simp
next
  case (Cons p ps)
  from Cons.prems obtain u where u: "process_batch p = Inr u"
    using process_batch_total [of p] by auto
  from Cons.prems have "list_all (list_all has_fields) ps" by simp
  from Cons.IH [OF this, of "Suc c" "t + int (length p)" "tr @ next_round (p, u, a c)"]
  obtain rs where
    loop: "for_loop (stub a) \<lparr>first_page = f, later_pages = ps, calls = Suc c\<rparr>
             (t + int (length p)) (tr @ next_round (p, u, a c)) =
           Some (Inr (t + int (length p) + (\<Sum>p\<leftarrow>ps. int (length p))),
                 \<lparr>first_page = f, later_pages = [], calls = Suc c + length ps\<rparr>,
                 (tr @ next_round (p, u, a c)) @ concat (map next_round rs))" and
    pages: "map fst rs = ps" and
    flags: "map (snd \<circ> snd) rs = map a [Suc c..<Suc c + length ps]" and
    ok: "list_all (\<lambda>(p, u, b). process_batch p = Inr u) rs"
    by blast
  have step: "for_loop (stub a) \<lparr>first_page = f, later_pages = p # ps, calls = c\<rparr> t tr =
          for_loop (stub a) \<lparr>first_page = f, later_pages = ps, calls = Suc c\<rparr>
            (t + int (length p)) (tr @ next_round (p, u, a c))"
    by (rule for_loop_page [OF stub_iter_next_Cons u stub_update_items])
  have a: "for_loop (stub a) \<lparr>first_page = f, later_pages = p # ps, calls = c\<rparr> t tr =
             Some (Inr (t + (\<Sum>q\<leftarrow>p # ps. int (length q))),
                   \<lparr>first_page = f, later_pages = [], calls = c + length (p # ps)\<rparr>,
                   tr @ concat (map next_round ((p, u, a c) # rs)))"
    using step loop by (simp add: add.assoc)
  have b: "map fst ((p, u, a c) # rs) = p # ps" using pages by simp
  have "[c..<c + length (p # ps)] = c # [Suc c..<Suc c + length ps]"
    by (subst upt_rec) simp
  then have c: "map (snd \<circ> snd) ((p, u, a c) # rs) = map a [c..<c + length (p # ps)]"
    using flags by simp
  have d: "list_all (\<lambda>(p, u, b). process_batch p = Inr u) ((p, u, a c) # rs)"
    using ok u by simp
  show ?case by (rule exI [of _ "(p, u, a c) # rs"]) (intro conjI a b c d)
qed

text \<open>The whole run on the test client, from a state with no call made.\<close>

lemma run_stub:
  assumes "list_all has_fields f" and "list_all (list_all has_fields) ps"
  shows "\<exists>rs n. run (stub a) \<lparr>first_page = f, later_pages = ps, calls = 0\<rparr> =
                 Some (Inr n,
                       \<lparr>first_page = f, later_pages = [], calls = Suc (length ps)\<rparr>,
                       first_round (hd rs) @ concat (map next_round (tl rs))
                         @ [Printed (TOTAL_ITEMS_PROCESSED n)])
              \<and> n = (\<Sum>p\<leftarrow>f # ps. int (length p))
              \<and> map fst rs = f # ps
              \<and> map (snd \<circ> snd) rs = map a [0..<Suc (length ps)]
              \<and> list_all (\<lambda>(p, u, b). process_batch p = Inr u) rs"
proof -
  from assms(1) obtain u where u: "process_batch f = Inr u"
    using process_batch_total [of f] by auto
  from for_loop_stub [OF assms(2), of a f "Suc 0" "int (length f)" "first_round (f, u, a 0)"]
  obtain rs where
    loop: "for_loop (stub a) \<lparr>first_page = f, later_pages = ps, calls = Suc 0\<rparr>
             (int (length f)) (first_round (f, u, a 0)) =
           Some (Inr (int (length f) + (\<Sum>p\<leftarrow>ps. int (length p))),
                 \<lparr>first_page = f, later_pages = [], calls = Suc 0 + length ps\<rparr>,
                 first_round (f, u, a 0) @ concat (map next_round rs))" and
    pages: "map fst rs = ps" and
    flags: "map (snd \<circ> snd) rs = map a [Suc 0..<Suc 0 + length ps]" and
    ok: "list_all (\<lambda>(p, u, b). process_batch p = Inr u) rs"
    by blast
  let ?n = "\<Sum>p\<leftarrow>f # ps. int (length p)"
  have a: "run (stub a) \<lparr>first_page = f, later_pages = ps, calls = 0\<rparr> =
             Some (Inr ?n,
                   \<lparr>first_page = f, later_pages = [], calls = Suc (length ps)\<rparr>,
                   first_round (hd ((f, u, a 0) # rs))
                     @ concat (map next_round (tl ((f, u, a 0) # rs)))
                     @ [Printed (TOTAL_ITEMS_PROCESSED ?n)])"
    using u loop by (simp add: run_def stub_items stub_update_items first_round_def)
  have b: "map fst ((f, u, a 0) # rs) = f # ps" using pages by simp
  have "[0..<Suc (length ps)] = 0 # [Suc 0..<Suc 0 + length ps]"
    by (subst upt_rec) simp
  then have c: "map (snd \<circ> snd) ((f, u, a 0) # rs) = map a [0..<Suc (length ps)]"
    using flags by simp
  have d: "list_all (\<lambda>(p, u, b). process_batch p = Inr u) ((f, u, a 0) # rs)"
    using ok u by simp
  show ?thesis
    by (rule exI [of _ "(f, u, a 0) # rs"], rule exI [of _ ?n]) (intro conjI a refl b c d)
qed

lemma rounds_batches:
  assumes "list_all (\<lambda>(p, u, b). process_batch p = Inr u) rs"
  shows "list_all2 (\<lambda>p u. process_batch p = Inr u) (map fst rs) (map (fst \<circ> snd) rs)"
  using assms by (induction rs) auto

subsection \<open>Test data, evaluated\<close>

lemma add_w3id_url_report_item:
  "add_w3id_url (report_item k v) =
     Inr [(''key'', PyStr k), (''version'', PyInt v),
          (''url'', PyStr (''https://w3id.org/usgs/z/4530692/'' @ k))]"
  by (simp add: add_w3id_url_def report_item_def format_value_def str_nat.simps digit_char_def)

lemma run_one_item:
  "run (stub (\<lambda>c. True)) \<lparr>first_page = [report_item ''ABC123'' 7], later_pages = [], calls = 0\<rparr> =
     Some (Inr 1, \<lparr>first_page = [report_item ''ABC123'' 7], later_pages = [], calls = 1\<rparr>,
           [Fetched [report_item ''ABC123'' 7],
            Submitted [[(''key'', PyStr ''ABC123''), (''version'', PyInt 7),
                        (''url'', PyStr ''https://w3id.org/usgs/z/4530692/ABC123'')]] True,
            Printed (PROCESSED_INITIAL_BATCH 1 True),
            Printed (TOTAL_ITEMS_PROCESSED 1)])"
  by (simp add: run_def stub_items stub_update_items for_loop_exhausted stub_iter_next_Nil
        add_w3id_url_report_item)

lemma run_three_pages:
  "run (stub a) three_pages =
     Some (Inr 3,
           \<lparr>first_page = [report_item ''AAAA1111'' 3, report_item ''BBBB2222'' 5],
              later_pages = [], calls = 3\<rparr>,
           [Fetched [report_item ''AAAA1111'' 3, report_item ''BBBB2222'' 5],
            Submitted [[(''key'', PyStr ''AAAA1111''), (''version'', PyInt 3),
                        (''url'', PyStr ''https://w3id.org/usgs/z/4530692/AAAA1111'')],
                       [(''key'', PyStr ''BBBB2222''), (''version'', PyInt 5),
                        (''url'', PyStr ''https://w3id.org/usgs/z/4530692/BBBB2222'')]] (a 0),
            Printed (PROCESSED_INITIAL_BATCH 2 (a 0)),
            Fetched [report_item ''CCCC3333'' 8],
            Submitted [[(''key'', PyStr ''CCCC3333''), (''version'', PyInt 8),
                        (''url'', PyStr ''https://w3id.org/usgs/z/4530692/CCCC3333'')]] (a 1),
            Printed (PROCESSED_NEXT_BATCH 1 (a 1)),
            Fetched [],
            Submitted [] (a 2),
            Printed (PROCESSED_NEXT_BATCH 0 (a 2)),
            Printed (TOTAL_ITEMS_PROCESSED 3)])"
proof -
  let ?f = "[report_item ''AAAA1111'' 3, report_item ''BBBB2222'' 5]"
  have pb1: "process_batch [report_item ''CCCC3333'' 8] =
               Inr [[(''key'', PyStr ''CCCC3333''), (''version'', PyInt 8),
                     (''url'', PyStr ''https://w3id.org/usgs/z/4530692/CCCC3333'')]]"
    by (simp add: add_w3id_url_report_item)
  have pb2: "process_batch [] = Inr []"
    by simp
  have l3: "for_loop (stub a) \<lparr>first_page = ?f, later_pages = [], calls = Suc (Suc (Suc 0))\<rparr> t tr =
              Some (Inr t, \<lparr>first_page = ?f, later_pages = [], calls = Suc (Suc (Suc 0))\<rparr>, tr)"
    for t tr
    by (rule for_loop_exhausted) (rule stub_iter_next_Nil)
  have l2: "for_loop (stub a) \<lparr>first_page = ?f, later_pages = [[]], calls = Suc (Suc 0)\<rparr> t tr =
              Some (Inr t, \<lparr>first_page = ?f, later_pages = [], calls = Suc (Suc (Suc 0))\<rparr>,
                    tr @ next_round ([], [], a (Suc (Suc 0))))"
    for t tr
    using for_loop_page [OF stub_iter_next_Cons pb2 stub_update_items,
            of a ?f "[]" "Suc (Suc 0)" t tr]
    by (simp add: l3)
  have l1: "for_loop (stub a)
              \<lparr>first_page = ?f, later_pages = [[report_item ''CCCC3333'' 8], []], calls = Suc 0\<rparr>
              t tr =
              Some (Inr (t + 1), \<lparr>first_page = ?f, later_pages = [], calls = Suc (Suc (Suc 0))\<rparr>,
                    (tr @ next_round ([report_item ''CCCC3333'' 8],
                                      [[(''key'', PyStr ''CCCC3333''), (''version'', PyInt 8),
                                        (''url'', PyStr ''https://w3id.org/usgs/z/4530692/CCCC3333'')]],
                                      a (Suc 0)))
                      @ next_round ([], [], a (Suc (Suc 0))))"
    for t tr
    using for_loop_page [OF stub_iter_next_Cons pb1 stub_update_items,
            of a ?f "[[]]" "Suc 0" t tr]
    by (simp add: l2)
  show ?thesis
    by (simp add: run_def three_pages_def stub_items stub_update_items
          add_w3id_url_report_item l1 next_round_def eval_nat_numeral)
qed

text \<open>With items that all have the fields, the loop cannot end by an exception.\<close>

lemma for_loop_no_raise:
  assumes "for_loop z s t tr = Some out"
    and "\<forall>s p s1. iter_next z s = Some (p, s1) \<longrightarrow> list_all has_fields p"
  shows "\<not> isl (fst out)"
  using assms
proof (induction z s t tr out rule: for_loop_induct)
  case (step loop z s t tr out)
  show ?case
  proof (cases "iter_next z s")
    case None
    with step.hyps have "out = (Inr t, s, tr)" by simp
    then show ?thesis by simp
  next
    case (Some a)
    obtain p s1 where a: "a = (p, s1)" by (cases a)
    from Some a step.prems have "list_all has_fields p" by blast
    then obtain u where u: "process_batch p = Inr u"
      using process_batch_total [of p] by auto
    obtain b s2 where upd: "update_items z u s1 = (b, s2)" by (cases "update_items z u s1")
    from Some a u upd step.hyps
    have "loop z s2 (t + int (length p))
            (tr @ [Fetched p, Submitted u b,
                   Printed (PROCESSED_NEXT_BATCH (int (length u)) b)]) = Some out"
      by simp
    from step.IH [OF this step.prems] show ?thesis .
  qed
qed

lemma endless_never_exhausted: "\<not> exhausted_after endless k s"
  by (induction k) (simp_all add: endless_def)

subsection \<open>Runs that differ in their flags\<close>

lemma fetched_mask: "fetched (map mask_flag tr) = fetched tr"
proof (induction tr)
  case Nil
  show ?case by simp
next
  case (Cons e tr)
  then show ?case by (cases e rule: mask_flag.cases) simp_all
qed

lemma submitted_mask: "submitted (map mask_flag tr) = submitted tr"
proof (induction tr)
  case Nil
  show ?case by simp
next
  case (Cons e tr)
  then show ?case by (cases e rule: mask_flag.cases) simp_all
qed

text \<open>
  Two clients that return the same pages and go through the same states, and differ at most
  in the flags of \<^verbatim>\<open>update_items\<close>: when the loop returns on one, it returns on the other
  with the same result, final state and trace, flags apart.
\<close>

lemma for_loop_masked:
  assumes "for_loop z s t tr = Some out"
    and "iter_next z' = iter_next z"
    and "\<forall>u s. snd (update_items z' u s) = snd (update_items z u s)"
    and "map mask_flag tr2 = map mask_flag tr"
  shows "\<exists>out'. for_loop z' s t tr2 = Some out' \<and> mask_outcome out' = mask_outcome out"
  using assms
proof (induction z s t tr out arbitrary: tr2 rule: for_loop_induct)
  case (step loop z s t tr out)
  show ?case
  proof (cases "iter_next z s")
    case None
    with step.hyps have out: "out = (Inr t, s, tr)" by simp
    from None step.prems(1) have "iter_next z' s = None" by simp
    then have "for_loop z' s t tr2 = Some (Inr t, s, tr2)" by (rule for_loop_exhausted)
    with out step.prems(3) show ?thesis by (simp add: mask_outcome_def)
  next
    case (Some a)
    obtain p s1 where a: "a = (p, s1)" by (cases a)
    from Some a step.prems(1) have nx: "iter_next z' s = Some (p, s1)" by simp
    show ?thesis
    proof (cases "process_batch p")
      case (Inl e)
      with Some a step.hyps have out: "out = (Inl e, s1, tr @ [Fetched p])" by simp
      have "for_loop z' s t tr2 = Some (Inl e, s1, tr2 @ [Fetched p])"
        by (rule for_loop_raise [OF nx Inl])
      with out step.prems(3) show ?thesis by (simp add: mask_outcome_def)
    next
      case (Inr u)
      obtain b s2 where upd: "update_items z u s1 = (b, s2)" by (cases "update_items z u s1")
      obtain b' s2' where upd': "update_items z' u s1 = (b', s2')"
        by (cases "update_items z' u s1")
      from step.prems(2) have "snd (update_items z' u s1) = snd (update_items z u s1)" by blast
      with upd upd' have s2: "s2' = s2" by simp
      from Some a Inr upd step.hyps
      have run: "loop z s2 (t + int (length p))
              (tr @ [Fetched p, Submitted u b,
                     Printed (PROCESSED_NEXT_BATCH (int (length u)) b)]) = Some out"
        by simp
      have tr: "map mask_flag (tr2 @ next_round (p, u, b')) =
                  map mask_flag (tr @ [Fetched p, Submitted u b,
                     Printed (PROCESSED_NEXT_BATCH (int (length u)) b)])"
        using step.prems(3) by (simp add: next_round_def)
      from step.IH [OF run step.prems(1,2) tr] obtain out' where
        out': "for_loop z' s2 (t + int (length p)) (tr2 @ next_round (p, u, b')) = Some out'"
          and m: "mask_outcome out' = mask_outcome out"
        by blast
      have "for_loop z' s t tr2 =
              for_loop z' s2 (t + int (length p)) (tr2 @ next_round (p, u, b'))"
        using for_loop_page [OF nx Inr upd'] s2 by simp
      with out' m show ?thesis by simp
    qed
  qed
qed

lemma run_masked:
  assumes "run z s0 = Some out"
    and "items z' = items z"
    and "iter_next z' = iter_next z"
    and "\<forall>u s. snd (update_items z' u s) = snd (update_items z u s)"
  shows "\<exists>out'. run z' s0 = Some out' \<and> mask_outcome out' = mask_outcome out"
proof -
  obtain p0 s1 where it: "items z ''report'' 50 s0 = (p0, s1)"
    by (cases "items z ''report'' 50 s0")
  with assms(2) have it': "items z' ''report'' 50 s0 = (p0, s1)" by simp
  show ?thesis
  proof (cases "process_batch p0")
    case (Inl e)
    with it it' assms(1) show ?thesis by (auto simp: run_def)
  next
    case (Inr u0)
    obtain b s2 where upd: "update_items z u0 s1 = (b, s2)" by (cases "update_items z u0 s1")
    obtain b' s2' where upd': "update_items z' u0 s1 = (b', s2')"
      by (cases "update_items z' u0 s1")
    from assms(4) have "snd (update_items z' u0 s1) = snd (update_items z u0 s1)" by blast
    with upd upd' have s2: "s2' = s2" by simp
    from assms(1) it Inr upd obtain lo where
      lo: "for_loop z s2 (int (length p0)) (first_round (p0, u0, b)) = Some lo" and
      out: "out = (case lo of (Inl e, s, tr) \<Rightarrow> (Inl e, s, tr)
                     | (Inr n, s, tr) \<Rightarrow> (Inr n, s, tr @ [Printed (TOTAL_ITEMS_PROCESSED n)]))"
      by (auto simp: run_def first_round_def split: option.splits sum.splits)
    have "map mask_flag (first_round (p0, u0, b')) = map mask_flag (first_round (p0, u0, b))"
      by (simp add: first_round_def)
    from for_loop_masked [OF lo assms(3,4) this] obtain lo' where
      lo': "for_loop z' s2 (int (length p0)) (first_round (p0, u0, b')) = Some lo'" and
      m: "mask_outcome lo' = mask_outcome lo"
      by blast
    let ?out' = "case lo' of (Inl e, s, tr) \<Rightarrow> (Inl e, s, tr)
                     | (Inr n, s, tr) \<Rightarrow> (Inr n, s, tr @ [Printed (TOTAL_ITEMS_PROCESSED n)])"
    have r': "run z' s0 = Some ?out'"
      using it' Inr upd' s2 lo'
      by (auto simp: run_def first_round_def split: prod.splits sum.splits)
    have "mask_outcome ?out' = mask_outcome out"
      using m out by (auto simp: mask_outcome_def split: prod.splits sum.splits)
    with r' show ?thesis by blast
  qed
qed

section \<open>The claims\<close>

text \<open>
  C3. For an item whose library id is the string \<open>L\<close> and whose key is the string \<open>K\<close>, both
  non-empty, \<^verbatim>\<open>add_w3id_url\<close> returns the update whose \<^verbatim>\<open>url\<close> is exactly
  \<^verbatim>\<open>https://w3id.org/usgs/z/\<close> followed by \<open>L\<close>, a slash and \<open>K\<close>. The result is a function of
  \<open>L\<close>, \<open>K\<close> and the version alone. (The item has a version, as every item of the library
  does; without one the dict literal raises \<^verbatim>\<open>KeyError\<close>.)
\<close>

theorem add_w3id_url_derives_url:
  assumes "library item = Some lib" and "map_of lib ''id'' = Some (PyStr L)"
    and "key item = Some (PyStr K)" and "version item = Some v"
    and "L \<noteq> []" and "K \<noteq> []"
  shows "add_w3id_url item =
           Inr [(''key'', PyStr K), (''version'', v),
                (''url'', PyStr (''https://w3id.org/usgs/z/'' @ L @ ''/'' @ K))]"
  using assms by (simp add: add_w3id_url_def format_value_def)

theorem add_w3id_url_derives_url_witness:
  "add_w3id_url \<lparr>library = Some [(''id'', PyStr ''4530692'')], key = Some (PyStr ''ABC123''),
                  version = Some (PyInt 7), other = []\<rparr> =
     Inr [(''key'', PyStr ''ABC123''), (''version'', PyInt 7),
          (''url'', PyStr ''https://w3id.org/usgs/z/4530692/ABC123'')]"
  using add_w3id_url_derives_url
          [of "\<lparr>library = Some [(''id'', PyStr ''4530692'')], key = Some (PyStr ''ABC123''),
                 version = Some (PyInt 7), other = []\<rparr>"
              "[(''id'', PyStr ''4530692'')]" "''4530692''" "''ABC123''" "PyInt 7"]
  by simp



text \<open>
  C1. When the client returns a first page and \<open>k\<close> more pages and then signals exhaustion, the
  run returns, its last printed line is the total, and that total is the sum of the sizes of
  the \<open>k + 1\<close> pages fetched: every page is counted once.
\<close>

theorem reported_total_is_sum_of_page_sizes:
  assumes "yields_pages z k s0"
  shows "\<exists>n s' tr. run z s0 = Some (Inr n, s', tr)
           \<and> last tr = Printed (TOTAL_ITEMS_PROCESSED n)
           \<and> length (fetched tr) = Suc k
           \<and> n = (\<Sum>p\<leftarrow>fetched tr. int (length p))"
proof -
  from run_yields_pages [OF assms] obtain n s' r0 rs where
    run: "run z s0 = Some (Inr n, s', first_round r0 @ concat (map next_round rs)
                                        @ [Printed (TOTAL_ITEMS_PROCESSED n)])" and
    len: "length rs = k" and
    n: "n = sum_list (map (\<lambda>(p, u, b). int (length p)) (r0 # rs))"
    by blast
  let ?tr = "first_round r0 @ concat (map next_round rs) @ [Printed (TOTAL_ITEMS_PROCESSED n)]"
  have f: "fetched ?tr = map fst (r0 # rs)"
    by (rule trace_projections(1)) (rule refl)
  have "last ?tr = Printed (TOTAL_ITEMS_PROCESSED n)" by simp
  moreover have "length (fetched ?tr) = Suc k" using f len by simp
  moreover have "n = (\<Sum>p\<leftarrow>fetched ?tr. int (length p))"
  proof -
    have "(\<Sum>p\<leftarrow>fetched ?tr. int (length p)) =
            sum_list (map (\<lambda>(p, u, b). int (length p)) (r0 # rs))"
      unfolding f by (rule sum_rounds [symmetric])
    then show ?thesis by (rule trans [OF n sym])
  qed
  ultimately show ?thesis using run by blast
qed

theorem reported_total_is_sum_of_page_sizes_witness:
  "yields_pages (stub (\<lambda>c. c \<noteq> 1)) 2 three_pages
   \<and> (\<exists>s' tr. run (stub (\<lambda>c. c \<noteq> 1)) three_pages = Some (Inr 3, s', tr)
          \<and> last tr = Printed (TOTAL_ITEMS_PROCESSED 3)
          \<and> length (fetched tr) = Suc 2
          \<and> 3 = (\<Sum>p\<leftarrow>fetched tr. int (length p)))"
proof -
  have h: "yields_pages (stub (\<lambda>c. c \<noteq> 1)) 2 three_pages"
    by (rule yields_pages_three_pages)
  from reported_total_is_sum_of_page_sizes [OF h] obtain n s' tr where
    run: "run (stub (\<lambda>c. c \<noteq> 1)) three_pages = Some (Inr n, s', tr)" and
    last: "last tr = Printed (TOTAL_ITEMS_PROCESSED n)" and
    len: "length (fetched tr) = Suc 2" and
    sum: "n = (\<Sum>p\<leftarrow>fetched tr. int (length p))"
    by (elim exE conjE) (rule that, assumption+)
  from run have n: "n = 3"
    by (simp add: run_three_pages)
  show ?thesis
    apply (rule conjI [OF h])
    apply (rule exI [of _ s'], rule exI [of _ tr])
    apply (intro conjI run [unfolded n] last [unfolded n] len sum [unfolded n])
    done
qed

text \<open>
  C6. When the client returns a first page and \<open>k\<close> more pages and then signals exhaustion,
  the run fetches all \<open>k + 1\<close> pages and makes \<open>k + 1\<close> \<^verbatim>\<open>update_items\<close> calls, one right
  after each page: the calls on the client are the pages and their payloads in turn. The
  payload of a page is \<^verbatim>\<open>add_w3id_url\<close> applied to its items one by one, so it has the
  page's length and order; when no page has more than 50 items, no payload has more than 50
  updates.
\<close>

theorem one_submit_per_page:
  assumes "yields_pages z k s0"
  shows "\<exists>n s' tr. run z s0 = Some (Inr n, s', tr)
           \<and> length (fetched tr) = Suc k
           \<and> length (submitted tr) = Suc k
           \<and> list_all2 (\<lambda>p u. list_all2 (\<lambda>i r. add_w3id_url i = Inr r) p u)
                 (fetched tr) (submitted tr)
           \<and> client_calls tr =
                 concat (map (\<lambda>(p, u, b). [Fetched p, Submitted u b])
                           (zip (fetched tr) (zip (submitted tr) (success_flags tr))))
           \<and> ((\<forall>p \<in> set (fetched tr). length p \<le> 50)
                  \<longrightarrow> (\<forall>u \<in> set (submitted tr). length u \<le> 50))"
proof -
  from run_yields_pages [OF assms] obtain n s' r0 rs where
    run: "run z s0 = Some (Inr n, s', first_round r0 @ concat (map next_round rs)
                                        @ [Printed (TOTAL_ITEMS_PROCESSED n)])" and
    len: "length rs = k" and
    ok: "list_all (\<lambda>(p, u, b). process_batch p = Inr u) (r0 # rs)"
    by blast
  let ?tr = "first_round r0 @ concat (map next_round rs) @ [Printed (TOTAL_ITEMS_PROCESSED n)]"
  have f: "fetched ?tr = map fst (r0 # rs)"
    and u: "submitted ?tr = map (fst \<circ> snd) (r0 # rs)"
    and b: "success_flags ?tr = map (snd \<circ> snd) (r0 # rs)"
    and c: "client_calls ?tr = concat (map (\<lambda>(p, u, b). [Fetched p, Submitted u b]) (r0 # rs))"
    by (rule trace_projections, rule refl)+
  have nf: "length (fetched ?tr) = Suc k"
    unfolding f using len by simp
  have nu: "length (submitted ?tr) = Suc k"
    unfolding u using len by simp
  have pw: "list_all2 (\<lambda>p u. list_all2 (\<lambda>i r. add_w3id_url i = Inr r) p u)
              (fetched ?tr) (submitted ?tr)"
    unfolding f u by (rule rounds_pointwise [OF ok])
  have calls: "client_calls ?tr =
                 concat (map (\<lambda>(p, u, b). [Fetched p, Submitted u b])
                           (zip (fetched ?tr) (zip (submitted ?tr) (success_flags ?tr))))"
    unfolding f u b rounds_zip by (rule c)
  have bound: "(\<forall>p \<in> set (fetched ?tr). length p \<le> 50)
                  \<longrightarrow> (\<forall>u \<in> set (submitted ?tr). length u \<le> 50)"
  proof (intro impI ballI)
    fix v
    assume small: "\<forall>p \<in> set (fetched ?tr). length p \<le> 50"
      and v: "v \<in> set (submitted ?tr)"
    from v obtain j where j: "j < length (submitted ?tr)" "submitted ?tr ! j = v"
      by (auto simp: in_set_conv_nth)
    from pw have len: "length (fetched ?tr) = length (submitted ?tr)"
      and nth: "list_all2 (\<lambda>i r. add_w3id_url i = Inr r) (fetched ?tr ! j) (submitted ?tr ! j)"
      using j(1) by (auto simp: list_all2_conv_all_nth)
    from nth j(2) have "length v = length (fetched ?tr ! j)"
      by (auto dest: list_all2_lengthD)
    moreover have "fetched ?tr ! j \<in> set (fetched ?tr)"
      using j(1) len by simp
    ultimately show "length v \<le> 50" using small by auto
  qed
  from run nf nu pw calls bound show ?thesis by blast
qed

theorem one_submit_per_page_witness:
  "yields_pages (stub (\<lambda>c. True)) 2 three_pages
   \<and> (\<exists>n s' tr. run (stub (\<lambda>c. True)) three_pages = Some (Inr n, s', tr)
           \<and> length (fetched tr) = Suc 2
           \<and> length (submitted tr) = Suc 2
           \<and> list_all2 (\<lambda>p u. list_all2 (\<lambda>i r. add_w3id_url i = Inr r) p u)
                 (fetched tr) (submitted tr)
           \<and> client_calls tr =
                 concat (map (\<lambda>(p, u, b). [Fetched p, Submitted u b])
                           (zip (fetched tr) (zip (submitted tr) (success_flags tr))))
           \<and> list_all (\<lambda>p. length p \<le> 50) (fetched tr)
           \<and> list_all (\<lambda>u. length u \<le> 50) (submitted tr))"
proof -
  have h: "yields_pages (stub (\<lambda>c. True)) 2 three_pages"
    by (rule yields_pages_three_pages)
  from one_submit_per_page [OF h] obtain n s' tr where
    run: "run (stub (\<lambda>c. True)) three_pages = Some (Inr n, s', tr)" and
    nf: "length (fetched tr) = Suc 2" and
    nu: "length (submitted tr) = Suc 2" and
    pw: "list_all2 (\<lambda>p u. list_all2 (\<lambda>i r. add_w3id_url i = Inr r) p u)
           (fetched tr) (submitted tr)" and
    calls: "client_calls tr =
              concat (map (\<lambda>(p, u, b). [Fetched p, Submitted u b])
                        (zip (fetched tr) (zip (submitted tr) (success_flags tr))))" and
    bound: "(\<forall>p \<in> set (fetched tr). length p \<le> 50)
              \<longrightarrow> (\<forall>u \<in> set (submitted tr). length u \<le> 50)"
    by (elim exE conjE) (rule that, assumption+)
  have pages: "fetched tr =
                 [[report_item ''AAAA1111'' 3, report_item ''BBBB2222'' 5],
                  [report_item ''CCCC3333'' 8], []]"
    using run by (auto simp: run_three_pages)
  have small: "list_all (\<lambda>p. length p \<le> 50) (fetched tr)"
    unfolding pages by simp
  then have "\<forall>p \<in> set (fetched tr). length p \<le> 50"
    by (simp add: list_all_iff)
  with bound have "\<forall>u \<in> set (submitted tr). length u \<le> 50"
    by (rule mp)
  then have sent: "list_all (\<lambda>u. length u \<le> 50) (submitted tr)"
    by (simp add: list_all_iff)
  show ?thesis
    apply (rule conjI [OF h])
    apply (rule exI [of _ n], rule exI [of _ s'], rule exI [of _ tr])
    apply (intro conjI run nf nu pw calls small sent)
    done
qed

text \<open>
  C2. On the test client with three pages of 50, 50 and 12 items, whatever flags it answers
  with, the run makes exactly three \<^verbatim>\<open>update_items\<close> calls, with payloads of 50, 50 and 12
  updates in that order, and reports the total 112.
\<close>

theorem three_pages_50_50_12:
  assumes "length p1 = 50" and "length p2 = 50" and "length p3 = 12"
    and "list_all has_fields p1" and "list_all has_fields p2" and "list_all has_fields p3"
  shows "\<exists>s' tr. run (stub a) \<lparr>first_page = p1, later_pages = [p2, p3], calls = 0\<rparr> =
                    Some (Inr 112, s', tr)
           \<and> last tr = Printed (TOTAL_ITEMS_PROCESSED 112)
           \<and> fetched tr = [p1, p2, p3]
           \<and> length (submitted tr) = 3
           \<and> map length (submitted tr) = [50, 50, 12]"
proof -
  have "list_all (list_all has_fields) [p2, p3]" using assms by simp
  from run_stub [OF assms(4) this, of a] obtain rs n where
    run: "run (stub a) \<lparr>first_page = p1, later_pages = [p2, p3], calls = 0\<rparr> =
            Some (Inr n,
                  \<lparr>first_page = p1, later_pages = [], calls = Suc (length [p2, p3])\<rparr>,
                  first_round (hd rs) @ concat (map next_round (tl rs))
                    @ [Printed (TOTAL_ITEMS_PROCESSED n)])" and
    n: "n = (\<Sum>p\<leftarrow>p1 # [p2, p3]. int (length p))" and
    pages: "map fst rs = p1 # [p2, p3]" and
    ok: "list_all (\<lambda>(p, u, b). process_batch p = Inr u) rs"
    by (elim exE conjE) (rule that, assumption+)
  let ?tr = "first_round (hd rs) @ concat (map next_round (tl rs))
               @ [Printed (TOTAL_ITEMS_PROCESSED n)]"
  from pages have ne: "rs \<noteq> []" by auto
  then have rs: "hd rs # tl rs = rs" by simp
  have f: "fetched ?tr = map fst rs"
    using trace_projections(1) [OF refl, of "hd rs" "tl rs"] rs by simp
  have u: "submitted ?tr = map (fst \<circ> snd) rs"
    using trace_projections(2) [OF refl, of "hd rs" "tl rs"] rs by simp
  have n112: "n = 112" using n assms(1-3) by simp
  have "list_all2 (\<lambda>p u. list_all2 (\<lambda>i r. add_w3id_url i = Inr r) p u)
          (map fst rs) (map (fst \<circ> snd) rs)"
    by (rule rounds_pointwise [OF ok])
  then have "list_all2 (\<lambda>p u. length u = length p) (map fst rs) (map (fst \<circ> snd) rs)"
    by (rule list_all2_mono) (auto dest: list_all2_lengthD)
  then have "map length (map (fst \<circ> snd) rs) = map length (map fst rs)"
    by (induction rule: list_all2_induct) auto
  then have lens: "map length (submitted ?tr) = [50, 50, 12]"
    using u pages assms(1-3) by simp
  then have "length (map length (submitted ?tr)) = 3" by simp
  then have three: "length (submitted ?tr) = 3" by simp
  have "last ?tr = Printed (TOTAL_ITEMS_PROCESSED n)" by simp
  with run f pages lens three n112 show ?thesis by auto
qed

theorem three_pages_50_50_12_witness:
  "\<exists>s' tr. run (stub (\<lambda>c. True))
              \<lparr>first_page = replicate 50 (report_item ''AAAA1111'' 3),
                 later_pages = [replicate 50 (report_item ''BBBB2222'' 5),
                                replicate 12 (report_item ''CCCC3333'' 8)],
                 calls = 0\<rparr> =
             Some (Inr 112, s', tr)
           \<and> last tr = Printed (TOTAL_ITEMS_PROCESSED 112)
           \<and> fetched tr = [replicate 50 (report_item ''AAAA1111'' 3),
                            replicate 50 (report_item ''BBBB2222'' 5),
                            replicate 12 (report_item ''CCCC3333'' 8)]
           \<and> length (submitted tr) = 3
           \<and> map length (submitted tr) = [50, 50, 12]"
  using three_pages_50_50_12
          [of "replicate 50 (report_item ''AAAA1111'' 3)"
              "replicate 50 (report_item ''BBBB2222'' 5)"
              "replicate 12 (report_item ''CCCC3333'' 8)" "\<lambda>c. True"]
  by (simp add: list_all_iff has_fields_report_item)

text \<open>
  C4, as stated, fails: with an empty first page and a generator that is exhausted at once, the
  script still calls \<^verbatim>\<open>update_items\<close> on the first page, with an empty payload. There is no
  test for an empty page anywhere in the script.
\<close>

theorem run_no_items_counterexample:
  "run (stub (\<lambda>c. True)) \<lparr>first_page = [], later_pages = [], calls = 0\<rparr> =
     Some (Inr 0, \<lparr>first_page = [], later_pages = [], calls = 1\<rparr>,
           [Fetched [], Submitted [] True, Printed (PROCESSED_INITIAL_BATCH 0 True),
            Printed (TOTAL_ITEMS_PROCESSED 0)])
   \<and> length (submitted [Fetched [], Submitted [] True,
                          Printed (PROCESSED_INITIAL_BATCH 0 True),
                          Printed (TOTAL_ITEMS_PROCESSED 0)]) = 1"
  by (simp add: run_def stub_items stub_update_items for_loop_exhausted stub_iter_next_Nil)

text \<open>
  C4, amended. When the first page is empty and the generator is exhausted at once, the run
  makes exactly one \<^verbatim>\<open>update_items\<close> call, with the empty payload, prints its flag, and
  reports the total 0.
\<close>

theorem run_no_items:
  assumes "items z ''report'' 50 s0 = ([], s1)"
    and "update_items z [] s1 = (b, s2)"
    and "iter_next z s2 = None"
  shows "run z s0 =
           Some (Inr 0, s2,
                 [Fetched [], Submitted [] b, Printed (PROCESSED_INITIAL_BATCH 0 b),
                  Printed (TOTAL_ITEMS_PROCESSED 0)])"
  using assms by (simp add: run_def for_loop_exhausted)

theorem run_no_items_witness:
  "items (stub (\<lambda>c. False)) ''report'' 50 \<lparr>first_page = [], later_pages = [], calls = 0\<rparr>
     = ([], \<lparr>first_page = [], later_pages = [], calls = 0\<rparr>)
   \<and> update_items (stub (\<lambda>c. False)) [] \<lparr>first_page = [], later_pages = [], calls = 0\<rparr>
     = (False, \<lparr>first_page = [], later_pages = [], calls = 1\<rparr>)
   \<and> iter_next (stub (\<lambda>c. False)) \<lparr>first_page = [], later_pages = [], calls = 1\<rparr> = None
   \<and> run (stub (\<lambda>c. False)) \<lparr>first_page = [], later_pages = [], calls = 0\<rparr> =
         Some (Inr 0, \<lparr>first_page = [], later_pages = [], calls = 1\<rparr>,
               [Fetched [], Submitted [] False, Printed (PROCESSED_INITIAL_BATCH 0 False),
                Printed (TOTAL_ITEMS_PROCESSED 0)])"
proof -
  have h1: "items (stub (\<lambda>c. False)) ''report'' 50
              \<lparr>first_page = [], later_pages = [], calls = 0\<rparr>
            = ([], \<lparr>first_page = [], later_pages = [], calls = 0\<rparr>)"
    by (simp add: stub_items)
  have h2: "update_items (stub (\<lambda>c. False)) [] \<lparr>first_page = [], later_pages = [], calls = 0\<rparr>
            = (False, \<lparr>first_page = [], later_pages = [], calls = 1\<rparr>)"
    by (simp add: stub_update_items)
  have h3: "iter_next (stub (\<lambda>c. False)) \<lparr>first_page = [], later_pages = [], calls = 1\<rparr>
            = None"
    by (simp add: stub_iter_next_Nil)
  show ?thesis using h1 h2 h3 run_no_items [OF h1 h2 h3] by simp
qed

text \<open>
  C5. On the test client, when some \<^verbatim>\<open>update_items\<close> call (number \<open>j\<close>) answers \<open>False\<close>, the
  run still returns: the flag is in the trace, every page is fetched, every page is sent, the
  calls on the client are the fetches and the sends and nothing else (nothing is undone or
  sent again), and the total is the sum over all pages, the page of call \<open>j\<close> included.
\<close>

theorem failed_batch_is_counted_and_run_goes_on:
  assumes "list_all has_fields f" and "list_all (list_all has_fields) ps"
    and "j \<le> length ps" and "\<not> a j"
  shows "\<exists>s' tr. run (stub a) \<lparr>first_page = f, later_pages = ps, calls = 0\<rparr> =
                    Some (Inr (\<Sum>p\<leftarrow>f # ps. int (length p)), s', tr)
           \<and> \<not> success_flags tr ! j
           \<and> fetched tr = f # ps
           \<and> list_all2 (\<lambda>p u. process_batch p = Inr u) (f # ps) (submitted tr)
           \<and> client_calls tr =
                 concat (map (\<lambda>(p, u, b). [Fetched p, Submitted u b])
                           (zip (fetched tr) (zip (submitted tr) (success_flags tr))))"
proof -
  from run_stub [OF assms(1,2), of a] obtain rs n where
    run: "run (stub a) \<lparr>first_page = f, later_pages = ps, calls = 0\<rparr> =
            Some (Inr n,
                  \<lparr>first_page = f, later_pages = [], calls = Suc (length ps)\<rparr>,
                  first_round (hd rs) @ concat (map next_round (tl rs))
                    @ [Printed (TOTAL_ITEMS_PROCESSED n)])" and
    n: "n = (\<Sum>p\<leftarrow>f # ps. int (length p))" and
    pages: "map fst rs = f # ps" and
    flags: "map (snd \<circ> snd) rs = map a [0..<Suc (length ps)]" and
    ok: "list_all (\<lambda>(p, u, b). process_batch p = Inr u) rs"
    by (elim exE conjE) (rule that, assumption+)
  let ?tr = "first_round (hd rs) @ concat (map next_round (tl rs))
               @ [Printed (TOTAL_ITEMS_PROCESSED n)]"
  from pages have "rs \<noteq> []" by auto
  then have rs: "hd rs # tl rs = rs" by simp
  have f: "fetched ?tr = map fst rs"
    using trace_projections(1) [OF refl, of "hd rs" "tl rs"] rs by simp
  have u: "submitted ?tr = map (fst \<circ> snd) rs"
    using trace_projections(2) [OF refl, of "hd rs" "tl rs"] rs by simp
  have b: "success_flags ?tr = map (snd \<circ> snd) rs"
    using trace_projections(3) [OF refl, of "hd rs" "tl rs"] rs by simp
  have c: "client_calls ?tr = concat (map (\<lambda>(p, u, b). [Fetched p, Submitted u b]) rs)"
    using trace_projections(4) [OF refl, of "hd rs" "tl rs"] rs by simp
  have "success_flags ?tr ! j = a ([0..<Suc (length ps)] ! j)"
    unfolding b flags using assms(3) by (intro nth_map) simp
  also have "[0..<Suc (length ps)] ! j = j"
    using assms(3) nth_upt [of 0 j "Suc (length ps)"] by simp
  finally have failed: "\<not> success_flags ?tr ! j" using assms(4) by simp
  have fetched: "fetched ?tr = f # ps" using f pages by simp
  have sent: "list_all2 (\<lambda>p u. process_batch p = Inr u) (f # ps) (submitted ?tr)"
    using rounds_batches [OF ok] pages u by simp
  have calls: "client_calls ?tr =
                 concat (map (\<lambda>(p, u, b). [Fetched p, Submitted u b])
                           (zip (fetched ?tr) (zip (submitted ?tr) (success_flags ?tr))))"
    unfolding f u b rounds_zip by (rule c)
  from run [unfolded n] failed [unfolded n] fetched [unfolded n] sent [unfolded n]
    calls [unfolded n]
  show ?thesis by blast
qed

theorem failed_batch_is_counted_and_run_goes_on_witness:
  "\<exists>s' tr. run (stub (\<lambda>c. c \<noteq> 1))
              \<lparr>first_page = [report_item ''AAAA1111'' 3, report_item ''BBBB2222'' 5],
                 later_pages = [[report_item ''CCCC3333'' 8], [report_item ''DDDD4444'' 2]],
                 calls = 0\<rparr> =
             Some (Inr 4, s', tr)
           \<and> \<not> success_flags tr ! 1
           \<and> fetched tr = [[report_item ''AAAA1111'' 3, report_item ''BBBB2222'' 5],
                            [report_item ''CCCC3333'' 8], [report_item ''DDDD4444'' 2]]
           \<and> list_all2 (\<lambda>p u. process_batch p = Inr u)
                [[report_item ''AAAA1111'' 3, report_item ''BBBB2222'' 5],
                 [report_item ''CCCC3333'' 8], [report_item ''DDDD4444'' 2]] (submitted tr)
           \<and> client_calls tr =
                 concat (map (\<lambda>(p, u, b). [Fetched p, Submitted u b])
                           (zip (fetched tr) (zip (submitted tr) (success_flags tr))))"
  using failed_batch_is_counted_and_run_goes_on
          [of "[report_item ''AAAA1111'' 3, report_item ''BBBB2222'' 5]"
              "[[report_item ''CCCC3333'' 8], [report_item ''DDDD4444'' 2]]"
              1 "\<lambda>c. c \<noteq> 1"]
  by (simp add: has_fields_report_item)

text \<open>
  C7. Every update in every payload a run has sent comes from an item of a fetched page and is
  the dict with exactly the entries \<^verbatim>\<open>key\<close>, \<^verbatim>\<open>version\<close> and \<^verbatim>\<open>url\<close>, in that order: the
  item's key, the item's version as it was read, and the address built from the library id
  and the key. No other entry of the item is in it.
\<close>

theorem submitted_update_has_three_fields:
  assumes "run z s0 = Some (r, s', tr)"
  shows "\<forall>u \<in> set (submitted tr). \<forall>req \<in> set u.
           \<exists>p \<in> set (fetched tr). \<exists>i \<in> set p. \<exists>lib L k v.
             library i = Some lib \<and> map_of lib ''id'' = Some L
             \<and> key i = Some k \<and> version i = Some v
             \<and> req = [(''key'', k), (''version'', v),
                       (''url'', PyStr (''https://w3id.org/usgs/z/'' @ format_value L
                                         @ ''/'' @ format_value k))]"
proof (intro ballI)
  fix u req
  assume u: "u \<in> set (submitted tr)" and req: "req \<in> set u"
  from run_shape [OF assms] obtain rs where
    ok: "list_all (\<lambda>(p, u, b). process_batch p = Inr u) rs" and
    sub: "submitted tr = map (fst \<circ> snd) rs" and
    flg: "success_flags tr = map (snd \<circ> snd) rs" and
    fet: "fetched tr = map fst rs \<or> (\<exists>p. fetched tr = map fst rs @ [p])"
    by (elim exE conjE) (rule that, assumption+)
  from u sub have "u \<in> (fst \<circ> snd) ` set rs" by simp
  then obtain x where x: "x \<in> set rs" and ux: "u = fst (snd x)" by auto
  obtain p b where pub: "x = (p, u, b)" using ux by (cases x) auto
  from ok x pub have pb: "process_batch p = Inr u" by (auto simp: list_all_iff)
  have "fst x \<in> fst ` set rs" using x by (rule imageI)
  then have pin: "p \<in> set (map fst rs)" using pub by simp
  from fet have "set (map fst rs) \<subseteq> set (fetched tr)"
  proof (elim disjE exE)
    assume e: "fetched tr = map fst rs"
    show ?thesis unfolding e by (rule subset_refl)
  next
    fix q
    assume e: "fetched tr = map fst rs @ [q]"
    show ?thesis unfolding e set_append by (rule Un_upper1)
  qed
  with pin have p: "p \<in> set (fetched tr)" by (rule rev_subsetD)
  from process_batch_member [OF pb req] obtain i where
    i: "i \<in> set p" and upd: "add_w3id_url i = Inr req"
    by blast
  from add_w3id_url_InrD [OF upd] p i
  show "\<exists>p \<in> set (fetched tr). \<exists>i \<in> set p. \<exists>lib L k v.
             library i = Some lib \<and> map_of lib ''id'' = Some L
             \<and> key i = Some k \<and> version i = Some v
             \<and> req = [(''key'', k), (''version'', v),
                       (''url'', PyStr (''https://w3id.org/usgs/z/'' @ format_value L
                                         @ ''/'' @ format_value k))]"
    by blast
qed

theorem submitted_update_has_three_fields_witness:
  "run (stub (\<lambda>c. True)) \<lparr>first_page = [report_item ''ABC123'' 7], later_pages = [], calls = 0\<rparr> =
     Some (Inr 1, \<lparr>first_page = [report_item ''ABC123'' 7], later_pages = [], calls = 1\<rparr>,
           [Fetched [report_item ''ABC123'' 7],
            Submitted [[(''key'', PyStr ''ABC123''), (''version'', PyInt 7),
                        (''url'', PyStr ''https://w3id.org/usgs/z/4530692/ABC123'')]] True,
            Printed (PROCESSED_INITIAL_BATCH 1 True),
            Printed (TOTAL_ITEMS_PROCESSED 1)])
   \<and> (\<exists>lib L k v.
          library (report_item ''ABC123'' 7) = Some lib \<and> map_of lib ''id'' = Some L
          \<and> key (report_item ''ABC123'' 7) = Some k
          \<and> version (report_item ''ABC123'' 7) = Some v
          \<and> [(''key'', PyStr ''ABC123''), (''version'', PyInt 7),
              (''url'', PyStr ''https://w3id.org/usgs/z/4530692/ABC123'')] =
             [(''key'', k), (''version'', v),
              (''url'', PyStr (''https://w3id.org/usgs/z/'' @ format_value L
                                @ ''/'' @ format_value k))])"
proof -
  from submitted_update_has_three_fields [OF run_one_item]
  have "\<exists>lib L k v.
          library (report_item ''ABC123'' 7) = Some lib \<and> map_of lib ''id'' = Some L
          \<and> key (report_item ''ABC123'' 7) = Some k
          \<and> version (report_item ''ABC123'' 7) = Some v
          \<and> [(''key'', PyStr ''ABC123''), (''version'', PyInt 7),
              (''url'', PyStr ''https://w3id.org/usgs/z/4530692/ABC123'')] =
             [(''key'', k), (''version'', v),
              (''url'', PyStr (''https://w3id.org/usgs/z/'' @ format_value L
                                @ ''/'' @ format_value k))]"
    by simp
  with run_one_item show ?thesis by (rule conjI)
qed

text \<open>
  C8. The loop returns a total exactly when the generator, asked a page at a time between the
  \<^verbatim>\<open>update_items\<close> calls, signals exhaustion after finitely many pages. When every page the
  generator can yield holds items with the fields (so that no \<^verbatim>\<open>KeyError\<close> ends the loop
  early), the loop ends at all exactly in that case; a generator that never signals
  exhaustion gives a loop that never ends.
\<close>

theorem for_loop_returns_iff_exhausted:
  "((\<exists>k. exhausted_after z k s) \<longleftrightarrow> (\<exists>n s' tr'. for_loop z s t tr = Some (Inr n, s', tr')))
   \<and> ((\<forall>s p s1. iter_next z s = Some (p, s1) \<longrightarrow> list_all has_fields p) \<longrightarrow>
         ((\<exists>k. exhausted_after z k s) \<longleftrightarrow> for_loop z s t tr \<noteq> None))"
proof (intro conjI impI)
  show iff: "(\<exists>k. exhausted_after z k s) \<longleftrightarrow>
               (\<exists>n s' tr'. for_loop z s t tr = Some (Inr n, s', tr'))"
  proof
    assume "\<exists>k. exhausted_after z k s"
    then obtain k where "exhausted_after z k s" ..
    from for_loop_exhausted_after [OF this, of t tr]
    show "\<exists>n s' tr'. for_loop z s t tr = Some (Inr n, s', tr')" by blast
  next
    assume "\<exists>n s' tr'. for_loop z s t tr = Some (Inr n, s', tr')"
    then obtain n s' tr' where "for_loop z s t tr = Some (Inr n, s', tr')" by blast
    from for_loop_Inr_exhausted [OF this] show "\<exists>k. exhausted_after z k s" by simp
  qed
  assume wf: "\<forall>s p s1. iter_next z s = Some (p, s1) \<longrightarrow> list_all has_fields p"
  show "(\<exists>k. exhausted_after z k s) \<longleftrightarrow> for_loop z s t tr \<noteq> None"
  proof
    assume "\<exists>k. exhausted_after z k s"
    with iff show "for_loop z s t tr \<noteq> None" by auto
  next
    assume "for_loop z s t tr \<noteq> None"
    then obtain out where out: "for_loop z s t tr = Some out" by auto
    from for_loop_no_raise [OF out wf] for_loop_Inr_exhausted [OF out]
    show "\<exists>k. exhausted_after z k s" by simp
  qed
qed

theorem for_loop_returns_iff_exhausted_witness:
  "(\<exists>n s' tr'. for_loop (stub (\<lambda>c. True)) three_pages 0 [] = Some (Inr n, s', tr'))
   \<and> for_loop endless () 0 [] = None"
proof (rule conjI)
  have e: "exhausted_after (stub (\<lambda>c. True)) (length [[report_item ''CCCC3333'' 8], []])
             three_pages"
    unfolding three_pages_def
    by (rule exhausted_after_stub) (simp add: has_fields_report_item)
  have ex: "\<exists>k. exhausted_after (stub (\<lambda>c. True)) k three_pages"
    by (rule exI [where x = "length [[report_item ''CCCC3333'' 8], []]"]) (rule e)
  from for_loop_returns_iff_exhausted [of "stub (\<lambda>c. True)" three_pages 0 "[]"] ex
  show "\<exists>n s' tr'. for_loop (stub (\<lambda>c. True)) three_pages 0 [] = Some (Inr n, s', tr')"
    by simp
  have wf: "\<forall>s p s1. iter_next endless s = Some (p, s1) \<longrightarrow> list_all has_fields p"
    by (simp add: endless_def)
  have ne: "\<not> (\<exists>k. exhausted_after endless k ())"
    by (simp add: endless_never_exhausted)
  have iff: "(\<exists>k. exhausted_after endless k ()) \<longleftrightarrow> for_loop endless () 0 [] \<noteq> None"
    by (rule for_loop_returns_iff_exhausted [of endless "()" 0 "[]", THEN conjunct2, THEN mp])
       (rule wf)
  show "for_loop endless () 0 [] = None"
  proof (rule ccontr)
    assume "for_loop endless () 0 [] \<noteq> None"
    with iff have "\<exists>k. exhausted_after endless k ()" by (rule iffD2)
    with ne show False by (rule notE)
  qed
qed

text \<open>
  C9. Two clients that return the same pages and go through the same states, and differ at
  most in the flags their \<^verbatim>\<open>update_items\<close> calls return: the run ends on one exactly when it
  ends on the other, and then with the same total or exception, the same final state, the
  same pages fetched, the same payloads sent, and the same trace once the flags are masked.
\<close>

theorem success_flags_have_no_influence:
  assumes "items z' = items z"
    and "iter_next z' = iter_next z"
    and "\<forall>u s. snd (update_items z' u s) = snd (update_items z u s)"
  shows "(run z' s0 = None \<longleftrightarrow> run z s0 = None)
         \<and> (\<forall>r s tr r' s' tr'.
               run z s0 = Some (r, s, tr) \<and> run z' s0 = Some (r', s', tr') \<longrightarrow>
                 r' = r \<and> s' = s \<and> fetched tr' = fetched tr \<and> submitted tr' = submitted tr
                 \<and> map mask_flag tr' = map mask_flag tr)"
proof (rule conjI)
  show "run z' s0 = None \<longleftrightarrow> run z s0 = None"
  proof
    assume n: "run z' s0 = None"
    show "run z s0 = None"
    proof (rule ccontr)
      assume "run z s0 \<noteq> None"
      then obtain out where "run z s0 = Some out" by auto
      from run_masked [OF this assms] n show False by simp
    qed
  next
    assume n: "run z s0 = None"
    show "run z' s0 = None"
    proof (rule ccontr)
      assume "run z' s0 \<noteq> None"
      then obtain out where "run z' s0 = Some out" by auto
      from run_masked [OF this assms(1) [symmetric] assms(2) [symmetric]] assms(3) n
      show False by simp
    qed
  qed
next
  show "\<forall>r s tr r' s' tr'.
               run z s0 = Some (r, s, tr) \<and> run z' s0 = Some (r', s', tr') \<longrightarrow>
                 r' = r \<and> s' = s \<and> fetched tr' = fetched tr \<and> submitted tr' = submitted tr
                 \<and> map mask_flag tr' = map mask_flag tr"
  proof (intro allI impI)
  fix r s tr r' s' tr'
  assume "run z s0 = Some (r, s, tr) \<and> run z' s0 = Some (r', s', tr')"
  then have a: "run z s0 = Some (r, s, tr)" and b: "run z' s0 = Some (r', s', tr')"
    by simp_all
  from run_masked [OF a assms] b
  have m: "r' = r" "s' = s" "map mask_flag tr' = map mask_flag tr"
    by (simp_all add: mask_outcome_def)
  have f: "fetched tr' = fetched tr"
    using fetched_mask [of tr'] fetched_mask [of tr] by (simp only: m(3))
  have u: "submitted tr' = submitted tr"
    using submitted_mask [of tr'] submitted_mask [of tr] by (simp only: m(3))
  from m f u show "r' = r \<and> s' = s \<and> fetched tr' = fetched tr \<and> submitted tr' = submitted tr
                 \<and> map mask_flag tr' = map mask_flag tr"
    by simp
  qed
qed

theorem success_flags_have_no_influence_witness:
  "items (stub (\<lambda>c. False)) = items (stub (\<lambda>c. True))
   \<and> iter_next (stub (\<lambda>c. False)) = iter_next (stub (\<lambda>c. True))
   \<and> (\<forall>u s. snd (update_items (stub (\<lambda>c. False)) u s)
                = snd (update_items (stub (\<lambda>c. True)) u s))
   \<and> (\<exists>r s tr tr'.
          run (stub (\<lambda>c. True)) three_pages = Some (r, s, tr)
          \<and> run (stub (\<lambda>c. False)) three_pages = Some (r, s, tr')
          \<and> success_flags tr' \<noteq> success_flags tr
          \<and> fetched tr' = fetched tr \<and> submitted tr' = submitted tr
          \<and> map mask_flag tr' = map mask_flag tr)"
proof -
  have h1: "items (stub (\<lambda>c. False)) = items (stub (\<lambda>c. True))"
    by (simp add: stub_def)
  have h2: "iter_next (stub (\<lambda>c. False)) = iter_next (stub (\<lambda>c. True))"
    by (simp add: stub_def)
  have h3: "\<forall>u s. snd (update_items (stub (\<lambda>c. False)) u s)
                   = snd (update_items (stub (\<lambda>c. True)) u s)"
    by (simp add: stub_def)
  obtain r s tr where a: "run (stub (\<lambda>c. True)) three_pages = Some (r, s, tr)"
    and ft: "success_flags tr = [True, True, True]"
    using run_three_pages [of "\<lambda>c. True"] by simp
  obtain r' s' tr' where b: "run (stub (\<lambda>c. False)) three_pages = Some (r', s', tr')"
    and ff: "success_flags tr' = [False, False, False]"
    using run_three_pages [of "\<lambda>c. False"] by simp
  from success_flags_have_no_influence [OF h1 h2 h3, of three_pages] a b
  have same: "r' = r \<and> s' = s \<and> fetched tr' = fetched tr \<and> submitted tr' = submitted tr
                \<and> map mask_flag tr' = map mask_flag tr"
    by blast
  have differ: "success_flags tr' \<noteq> success_flags tr"
    unfolding ft ff by simp
  from b same have b': "run (stub (\<lambda>c. False)) three_pages = Some (r, s, tr')"
    by simp
  from same have f: "fetched tr' = fetched tr" and u: "submitted tr' = submitted tr"
    and m: "map mask_flag tr' = map mask_flag tr"
    by simp_all
  show ?thesis
    apply (intro conjI h1 h2 h3)
    apply (rule exI [of _ r], rule exI [of _ s], rule exI [of _ tr], rule exI [of _ tr'])
    apply (intro conjI a b' differ f u m)
    done
qed

end
